theory Spec2Isabelle
  imports Main
begin

section \<open>The route path registry of \<^verbatim>\<open>frontend/src/constants/paths.ts\<close>\<close>

text \<open>
  The source file exports two object literals and nothing else:
  \<^verbatim>\<open>
  export const protectedPaths = {
      dashboard: "/",
      collections: "/collections",
      ...
  }
  export const publicPaths = {
      login: "/login",
      ...
  }
  \<close>
  An object literal is a sequence of property definitions \<open>identifier: "pattern"\<close>.
  It is embedded as the list of its (identifier, pattern) pairs in source order, so that
  the order of the definitions and a possible repetition of an identifier stay visible
  in the model. Identifiers and patterns are strings.
\<close>

type_synonym path_table = "(string \<times> string) list"

definition protectedPaths :: path_table where
  "protectedPaths =
    [(''dashboard'', ''/''),
     (''collections'', ''/collections''),
     (''collectionDetail'', ''/collections/:readable_id''),
     (''collectionNew'', ''/collections/:readable_id/new''),
     (''apiKeys'', ''/api-keys''),
     (''authProviders'', ''/auth-providers''),
     (''whiteLabel'', ''/white-label''),
     (''whiteLabelTab'', ''/white-label/:id''),
     (''whiteLabelCreate'', ''/white-label/create''),
     (''whiteLabelDetail'', ''/white-label/:id''),
     (''whiteLabelEdit'', ''/white-label/:id/edit''),
     (''authCallback'', ''/auth/callback/:short_name'')]"

definition publicPaths :: path_table where
  "publicPaths =
    [(''login'', ''/login''),
     (''callback'', ''/callback''),
     (''semanticMcp'', ''/semantic-mcp''),
     (''onboarding'', ''/onboarding''),
     (''billingSuccess'', ''/billing/success''),
     (''billingCancel'', ''/billing/cancel'')]"

text \<open>The identifiers and the patterns of a table, in source order.\<close>

definition identifiers :: "path_table \<Rightarrow> string list" where
  "identifiers t = map fst t"

definition patterns :: "path_table \<Rightarrow> string list" where
  "patterns t = map snd t"

text \<open>
  Reading an own property \<open>table.identifier\<close> of the object the literal evaluates
  to: the value the identifier is bound to, if any. A JavaScript object keeps the last
  definition of a repeated identifier, so the literal is read from its end.
\<close>

definition property :: "path_table \<Rightarrow> string \<Rightarrow> string option" where
  "property t ident = map_of (rev t) ident"

subsection \<open>The lookup operation\<close>

datatype error = NotFoundError

text \<open>
  Modelled from the spec: the operation \<open>lookup(table, identifier)\<close>. The source file
  defines no lookup function (consumers reference a property of the constant by name),
  so the operation follows the specification's words: it returns the pattern string
  associated with the identifier, by reading the property, and fails with a
  \<open>NotFoundError\<close> if the identifier is absent from the table.
\<close>

definition lookup :: "path_table \<Rightarrow> string \<Rightarrow> error + string" where
  "lookup t ident =
     (case property t ident of
        None \<Rightarrow> Inl NotFoundError
      | Some pat \<Rightarrow> Inr pat)"

subsection \<open>Serialization\<close>

text \<open>
  Modelled from the spec: the own properties of the object a literal evaluates to, in
  the order a JavaScript engine enumerates them. The source file never enumerates its
  tables; this is the key/value view that the specification's serialization starts
  from. An identifier defined twice keeps its first position and its last value. (No
  identifier of the two tables is an array index, so none is moved to the front.)
\<close>

fun entries :: "path_table \<Rightarrow> path_table" where
  "entries [] = []"
| "entries ((k, v) # t) =
     (k, case property t k of None \<Rightarrow> v | Some v' \<Rightarrow> v')
       # entries (filter (\<lambda>m. fst m \<noteq> k) t)"

text \<open>
  Modelled from the spec: serializing a table to JSON text and reading it back. The
  source file has no serializer; the specification names JSON as the key/value
  representation, so the writer follows \<open>JSON.stringify\<close> on an object whose values
  are all strings (members \<open>"identifier":"pattern"\<close> separated by commas inside braces,
  strings quoted with the JSON escapes), and the reader follows \<open>JSON.parse\<close> on such
  an object text (white space between tokens, the escapes of JSON strings, the last
  member of a repeated name winning). Strings are byte strings, so a
  four-digit hexadecimal escape beyond one byte is not read.
\<close>

definition dquote :: char where
  "dquote = CHR 0x22"

definition backslash :: char where
  "backslash = CHR 0x5C"

definition hex_digit :: "nat \<Rightarrow> char" where
  "hex_digit n = (if n < 10 then char_of (48 + n) else char_of (87 + n))"

definition hex_value :: "char \<Rightarrow> nat option" where
  "hex_value c =
     (let n = of_char c :: nat in
      if 48 \<le> n \<and> n \<le> 57 then Some (n - 48)
      else if 97 \<le> n \<and> n \<le> 102 then Some (n - 87)
      else if 65 \<le> n \<and> n \<le> 70 then Some (n - 55)
      else None)"

definition quote_char :: "char \<Rightarrow> string" where
  "quote_char c =
     (if c = CHR 0x08 then [backslash, CHR ''b'']
      else if c = CHR 0x09 then [backslash, CHR ''t'']
      else if c = CHR 0x0A then [backslash, CHR ''n'']
      else if c = CHR 0x0C then [backslash, CHR ''f'']
      else if c = CHR 0x0D then [backslash, CHR ''r'']
      else if c = dquote then [backslash, dquote]
      else if c = backslash then [backslash, backslash]
      else if (of_char c :: nat) < 32 then
        [backslash, CHR ''u'', CHR ''0'', CHR ''0'',
         hex_digit (of_char c div 16), hex_digit (of_char c mod 16)]
      else [c])"

definition QuoteJSONString :: "string \<Rightarrow> string" where
  "QuoteJSONString s = dquote # concat (map quote_char s) @ [dquote]"

definition member_text :: "string \<times> string \<Rightarrow> string" where
  "member_text m = QuoteJSONString (fst m) @ '':'' @ QuoteJSONString (snd m)"

fun join :: "string list \<Rightarrow> string" where
  "join [] = []"
| "join [x] = x"
| "join (x # y # ys) = x @ '','' @ join (y # ys)"

text \<open>Modelled from the spec: the serializer, after \<open>JSON.stringify\<close>.\<close>

definition JSON_stringify :: "path_table \<Rightarrow> string" where
  "JSON_stringify t = ''{'' @ join (map member_text (entries t)) @ ''}''"

definition is_ws :: "char \<Rightarrow> bool" where
  "is_ws c \<longleftrightarrow> c = CHR '' '' \<or> c = CHR 0x09 \<or> c = CHR 0x0A \<or> c = CHR 0x0D"

definition skip_ws :: "string \<Rightarrow> string" where
  "skip_ws s = dropWhile is_ws s"

definition unescape :: "char \<Rightarrow> char option" where
  "unescape e =
     (if e = dquote then Some dquote
      else if e = backslash then Some backslash
      else if e = CHR ''/'' then Some CHR ''/''
      else if e = CHR ''b'' then Some (CHR 0x08)
      else if e = CHR ''f'' then Some (CHR 0x0C)
      else if e = CHR ''n'' then Some (CHR 0x0A)
      else if e = CHR ''r'' then Some (CHR 0x0D)
      else if e = CHR ''t'' then Some (CHR 0x09)
      else None)"

definition code_unit :: "char \<Rightarrow> char \<Rightarrow> char \<Rightarrow> char \<Rightarrow> char option" where
  "code_unit h1 h2 h3 h4 =
     (case (hex_value h1, hex_value h2, hex_value h3, hex_value h4) of
        (Some a, Some b, Some c, Some d) \<Rightarrow>
          (let n = ((a * 16 + b) * 16 + c) * 16 + d
           in if n < 256 then Some (char_of n) else None)
      | _ \<Rightarrow> None)"

fun read_chars :: "string \<Rightarrow> (string \<times> string) option" where
  "read_chars [] = None"
| "read_chars (c # cs) =
     (if c = dquote then Some ([], cs)
      else if c = backslash then
        (case cs of
           [] \<Rightarrow> None
         | e # es \<Rightarrow>
             if e = CHR ''u'' then
               (case es of
                  h1 # h2 # h3 # h4 # rest \<Rightarrow>
                    (case code_unit h1 h2 h3 h4 of
                       None \<Rightarrow> None
                     | Some ch \<Rightarrow>
                         (case read_chars rest of
                            None \<Rightarrow> None
                          | Some (s, r) \<Rightarrow> Some (ch # s, r)))
                | _ \<Rightarrow> None)
             else
               (case unescape e of
                  None \<Rightarrow> None
                | Some ch \<Rightarrow>
                    (case read_chars es of
                       None \<Rightarrow> None
                     | Some (s, r) \<Rightarrow> Some (ch # s, r))))
      else if (of_char c :: nat) < 32 then None
      else
        (case read_chars cs of
           None \<Rightarrow> None
         | Some (s, r) \<Rightarrow> Some (c # s, r)))"

definition read_string :: "string \<Rightarrow> (string \<times> string) option" where
  "read_string s =
     (case s of
        [] \<Rightarrow> None
      | c # cs \<Rightarrow> if c = dquote then read_chars cs else None)"

definition read_member :: "string \<Rightarrow> ((string \<times> string) \<times> string) option" where
  "read_member s =
     (case read_string (skip_ws s) of
        None \<Rightarrow> None
      | Some (k, r) \<Rightarrow>
          (case skip_ws r of
             [] \<Rightarrow> None
           | c # cs \<Rightarrow>
               if c = CHR '':'' then
                 (case read_string (skip_ws cs) of
                    None \<Rightarrow> None
                  | Some (v, r') \<Rightarrow> Some ((k, v), r'))
               else None))"

text \<open>
  Reading a string consumes input, so the reader of the member list terminates.
\<close>

lemma read_chars_shorter:
  "read_chars s = Some (x, r) \<Longrightarrow> length r < length s"
proof (induction s arbitrary: x r rule: read_chars.induct)
  case 1
  then show ?case by simp
next
  case (2 c cs)
  show ?case
  proof (cases "c = dquote")
    case True
    with "2.prems" show ?thesis by simp
  next
    case nq: False
    show ?thesis
    proof (cases "c = backslash")
      case True
      with nq "2.prems" obtain e es where cs: "cs = e # es"
        by (auto split: list.splits)
      show ?thesis
      proof (cases "e = CHR ''u''")
        case u: True
        with nq True cs "2.prems" obtain h1 h2 h3 h4 rest ch s' where
          es: "es = h1 # h2 # h3 # h4 # rest" and
          cu: "code_unit h1 h2 h3 h4 = Some ch" and
          rc: "read_chars rest = Some (s', r)"
          by (auto split: list.splits option.splits)
        from "2.IH"(1) [OF nq True cs u es _ _ _ cu rc] have "length r < length rest"
          by simp
        with cs es show ?thesis by simp
      next
        case nu: False
        with nq True cs "2.prems" obtain ch s' where
          ue: "unescape e = Some ch" and
          rc: "read_chars es = Some (s', r)"
          by (auto split: option.splits)
        from "2.IH"(2) [OF nq True cs nu ue rc] have "length r < length es" .
        with cs show ?thesis by simp
      qed
    next
      case nb: False
      with nq "2.prems" obtain s' where
        ctl: "\<not> (of_char c :: nat) < 32" and rc: "read_chars cs = Some (s', r)"
        by (auto split: if_splits option.splits)
      from "2.IH"(3) [OF nq nb ctl rc] have "length r < length cs" .
      then show ?thesis by simp
    qed
  qed
qed

lemma skip_ws_le: "length (skip_ws s) \<le> length s"
  by (simp add: skip_ws_def length_dropWhile_le)

lemma read_string_shorter:
  "read_string s = Some (x, r) \<Longrightarrow> length r < length s"
  by (auto simp: read_string_def split: list.splits if_splits dest: read_chars_shorter)

lemma read_member_shorter:
  assumes "read_member s = Some (m, r)"
  shows "length r < length s"
proof -
  from assms obtain k r1 c cs v where
    a: "read_string (skip_ws s) = Some (k, r1)" and
    b: "skip_ws r1 = c # cs" and
    c: "read_string (skip_ws cs) = Some (v, r)"
    by (auto simp: read_member_def split: option.splits list.splits if_splits)
  from a have "length r1 < length (skip_ws s)" by (rule read_string_shorter)
  moreover from c have "length r < length (skip_ws cs)" by (rule read_string_shorter)
  moreover have "length (skip_ws cs) \<le> length cs" by (rule skip_ws_le)
  moreover have "length (skip_ws s) \<le> length s" by (rule skip_ws_le)
  moreover have "length (skip_ws r1) \<le> length r1" by (rule skip_ws_le)
  ultimately show ?thesis using b by simp
qed

function read_members :: "string \<Rightarrow> (path_table \<times> string) option" where
  "read_members s =
     (case read_member s of
        None \<Rightarrow> None
      | Some (m, r) \<Rightarrow>
          (case skip_ws r of
             [] \<Rightarrow> None
           | c # cs \<Rightarrow>
               if c = CHR ''}'' then Some ([m], cs)
               else if c = CHR '','' then
                 (case read_members cs of
                    None \<Rightarrow> None
                  | Some (ms, r') \<Rightarrow> Some (m # ms, r'))
               else None))"
  by pat_completeness auto

termination
proof (relation "measure length")
  show "wf (measure length)" by simp
next
  fix s :: string and x2 m r c cs
  assume "read_member s = Some x2" and "(m, r) = x2" and "skip_ws r = c # cs"
  then have "read_member s = Some (m, r)"
    by simp
  then have "length r < length s"
    by (rule read_member_shorter)
  moreover have "length (skip_ws r) \<le> length r" by (rule skip_ws_le)
  ultimately show "(cs, s) \<in> measure length"
    using \<open>skip_ws r = c # cs\<close> by simp
qed

declare read_members.simps [simp del]

text \<open>Modelled from the spec: the deserializer, after \<open>JSON.parse\<close>.\<close>

definition JSON_parse :: "string \<Rightarrow> path_table option" where
  "JSON_parse s =
     (case skip_ws s of
        [] \<Rightarrow> None
      | c # cs \<Rightarrow>
          if c = CHR ''{'' then
            (case skip_ws cs of
               [] \<Rightarrow> None
             | d # ds \<Rightarrow>
                 if d = CHR ''}'' then (if skip_ws ds = [] then Some [] else None)
                 else
                   (case read_members (d # ds) of
                      None \<Rightarrow> None
                    | Some (ms, r) \<Rightarrow> if skip_ws r = [] then Some (entries ms) else None))
          else None)"

section \<open>The contents of the two tables\<close>

text \<open>
  C1: \<open>protectedPaths\<close> holds exactly the twelve pairs listed by the specification:
  its set of pairs is that set of twelve, it has twelve property definitions, and
  reading each identifier gives exactly its pattern while any other identifier is unbound.
\<close>

theorem protectedPaths_exact:
  "set protectedPaths =
     {(''dashboard'', ''/''),
      (''collections'', ''/collections''),
      (''collectionDetail'', ''/collections/:readable_id''),
      (''collectionNew'', ''/collections/:readable_id/new''),
      (''apiKeys'', ''/api-keys''),
      (''authProviders'', ''/auth-providers''),
      (''whiteLabel'', ''/white-label''),
      (''whiteLabelTab'', ''/white-label/:id''),
      (''whiteLabelCreate'', ''/white-label/create''),
      (''whiteLabelDetail'', ''/white-label/:id''),
      (''whiteLabelEdit'', ''/white-label/:id/edit''),
      (''authCallback'', ''/auth/callback/:short_name'')}
   \<and> length protectedPaths = 12
   \<and> card (set (identifiers protectedPaths)) = 12
   \<and> property protectedPaths =
       [''dashboard'' \<mapsto> ''/'',
        ''collections'' \<mapsto> ''/collections'',
        ''collectionDetail'' \<mapsto> ''/collections/:readable_id'',
        ''collectionNew'' \<mapsto> ''/collections/:readable_id/new'',
        ''apiKeys'' \<mapsto> ''/api-keys'',
        ''authProviders'' \<mapsto> ''/auth-providers'',
        ''whiteLabel'' \<mapsto> ''/white-label'',
        ''whiteLabelTab'' \<mapsto> ''/white-label/:id'',
        ''whiteLabelCreate'' \<mapsto> ''/white-label/create'',
        ''whiteLabelDetail'' \<mapsto> ''/white-label/:id'',
        ''whiteLabelEdit'' \<mapsto> ''/white-label/:id/edit'',
        ''authCallback'' \<mapsto> ''/auth/callback/:short_name'']"
proof -
  have pairs: "set protectedPaths =
     {(''dashboard'', ''/''),
      (''collections'', ''/collections''),
      (''collectionDetail'', ''/collections/:readable_id''),
      (''collectionNew'', ''/collections/:readable_id/new''),
      (''apiKeys'', ''/api-keys''),
      (''authProviders'', ''/auth-providers''),
      (''whiteLabel'', ''/white-label''),
      (''whiteLabelTab'', ''/white-label/:id''),
      (''whiteLabelCreate'', ''/white-label/create''),
      (''whiteLabelDetail'', ''/white-label/:id''),
      (''whiteLabelEdit'', ''/white-label/:id/edit''),
      (''authCallback'', ''/auth/callback/:short_name'')}"
    by (simp add: protectedPaths_def)
  have len: "length protectedPaths = 12"
    by (simp add: protectedPaths_def)
  have "distinct (identifiers protectedPaths)"
    by (simp add: protectedPaths_def identifiers_def)
  then have "card (set (identifiers protectedPaths)) = length (identifiers protectedPaths)"
    by (rule distinct_card)
  then have keys: "card (set (identifiers protectedPaths)) = 12"
    by (simp add: identifiers_def len)
  have props: "property protectedPaths =
       [''dashboard'' \<mapsto> ''/'',
        ''collections'' \<mapsto> ''/collections'',
        ''collectionDetail'' \<mapsto> ''/collections/:readable_id'',
        ''collectionNew'' \<mapsto> ''/collections/:readable_id/new'',
        ''apiKeys'' \<mapsto> ''/api-keys'',
        ''authProviders'' \<mapsto> ''/auth-providers'',
        ''whiteLabel'' \<mapsto> ''/white-label'',
        ''whiteLabelTab'' \<mapsto> ''/white-label/:id'',
        ''whiteLabelCreate'' \<mapsto> ''/white-label/create'',
        ''whiteLabelDetail'' \<mapsto> ''/white-label/:id'',
        ''whiteLabelEdit'' \<mapsto> ''/white-label/:id/edit'',
        ''authCallback'' \<mapsto> ''/auth/callback/:short_name'']"
    by (rule ext) (simp add: property_def protectedPaths_def)
  from pairs len keys props show ?thesis by blast
qed

text \<open>
  C2: \<open>publicPaths\<close> holds exactly the six pairs listed by the specification; in
  particular \<open>publicPaths.login\<close> is \<open>/login\<close> and \<open>publicPaths.onboarding\<close> is
  \<open>/onboarding\<close>.
\<close>

theorem publicPaths_exact:
  "set publicPaths =
     {(''login'', ''/login''),
      (''callback'', ''/callback''),
      (''semanticMcp'', ''/semantic-mcp''),
      (''onboarding'', ''/onboarding''),
      (''billingSuccess'', ''/billing/success''),
      (''billingCancel'', ''/billing/cancel'')}
   \<and> length publicPaths = 6
   \<and> card (set (identifiers publicPaths)) = 6
   \<and> property publicPaths =
       [''login'' \<mapsto> ''/login'',
        ''callback'' \<mapsto> ''/callback'',
        ''semanticMcp'' \<mapsto> ''/semantic-mcp'',
        ''onboarding'' \<mapsto> ''/onboarding'',
        ''billingSuccess'' \<mapsto> ''/billing/success'',
        ''billingCancel'' \<mapsto> ''/billing/cancel'']
   \<and> property publicPaths ''login'' = Some ''/login''
   \<and> property publicPaths ''onboarding'' = Some ''/onboarding''"
proof -
  have pairs: "set publicPaths =
     {(''login'', ''/login''),
      (''callback'', ''/callback''),
      (''semanticMcp'', ''/semantic-mcp''),
      (''onboarding'', ''/onboarding''),
      (''billingSuccess'', ''/billing/success''),
      (''billingCancel'', ''/billing/cancel'')}"
    by (simp add: publicPaths_def)
  have len: "length publicPaths = 6"
    by (simp add: publicPaths_def)
  have "distinct (identifiers publicPaths)"
    by (simp add: publicPaths_def identifiers_def)
  then have "card (set (identifiers publicPaths)) = length (identifiers publicPaths)"
    by (rule distinct_card)
  then have keys: "card (set (identifiers publicPaths)) = 6"
    by (simp add: identifiers_def len)
  have props: "property publicPaths =
       [''login'' \<mapsto> ''/login'',
        ''callback'' \<mapsto> ''/callback'',
        ''semanticMcp'' \<mapsto> ''/semantic-mcp'',
        ''onboarding'' \<mapsto> ''/onboarding'',
        ''billingSuccess'' \<mapsto> ''/billing/success'',
        ''billingCancel'' \<mapsto> ''/billing/cancel'']"
    by (rule ext) (simp add: property_def publicPaths_def)
  have login: "property publicPaths ''login'' = Some ''/login''"
    by (simp add: property_def publicPaths_def)
  have onboarding: "property publicPaths ''onboarding'' = Some ''/onboarding''"
    by (simp add: property_def publicPaths_def)
  from pairs len keys props login onboarding show ?thesis by blast
qed

section \<open>Invariants of the tables\<close>

text \<open>
  Reading an identifier that a literal defines gives a pattern that the literal pairs
  with it; reading any other identifier gives nothing.
\<close>

lemma property_Some_in_table:
  "property t ident = Some pat \<Longrightarrow> (ident, pat) \<in> set t"
  unfolding property_def by (drule map_of_SomeD) simp

lemma property_defined:
  "ident \<in> set (identifiers t) \<Longrightarrow> \<exists>pat. property t ident = Some pat"
proof -
  assume "ident \<in> set (identifiers t)"
  then have "ident \<in> fst ` set (rev t)"
    by (simp add: identifiers_def)
  then have "map_of (rev t) ident \<noteq> None"
    by (simp add: map_of_eq_None_iff)
  then show ?thesis
    by (auto simp: property_def)
qed

lemma property_None_iff:
  "property t ident = None \<longleftrightarrow> ident \<notin> set (identifiers t)"
  by (simp add: property_def identifiers_def map_of_eq_None_iff)

lemma protected_pairs_slash:
  "(ident, pat) \<in> set protectedPaths \<Longrightarrow> pat \<noteq> [] \<and> hd pat = CHR ''/''"
  by (auto simp: protectedPaths_def)

lemma public_pairs_slash:
  "(ident, pat) \<in> set publicPaths \<Longrightarrow> pat \<noteq> [] \<and> hd pat = CHR ''/''"
  by (auto simp: publicPaths_def)

text \<open>
  C3: for every identifier of \<open>protectedPaths\<close> and every identifier of \<open>publicPaths\<close>,
  the pattern the identifier is bound to is a non-empty string whose first character
  is the slash.
\<close>

theorem patterns_start_with_slash:
  assumes "t = protectedPaths \<or> t = publicPaths"
    and "ident \<in> set (identifiers t)"
  shows "\<exists>pat. property t ident = Some pat \<and> pat \<noteq> [] \<and> hd pat = CHR ''/''"
proof -
  from assms(2) obtain pat where p: "property t ident = Some pat"
    using property_defined by blast
  then have "(ident, pat) \<in> set t"
    by (rule property_Some_in_table)
  with assms(1) have "pat \<noteq> [] \<and> hd pat = CHR ''/''"
    using protected_pairs_slash public_pairs_slash by blast
  with p show ?thesis by blast
qed

theorem patterns_start_with_slash_witness:
  "(\<exists>pat. property protectedPaths ''authCallback'' = Some pat \<and> pat \<noteq> [] \<and> hd pat = CHR ''/'')
   \<and> (\<exists>pat. property publicPaths ''billingCancel'' = Some pat \<and> pat \<noteq> [] \<and> hd pat = CHR ''/'')"
proof -
  have a: "''authCallback'' \<in> set (identifiers protectedPaths)"
    by (simp add: identifiers_def protectedPaths_def)
  have b: "''billingCancel'' \<in> set (identifiers publicPaths)"
    by (simp add: identifiers_def publicPaths_def)
  from patterns_start_with_slash [of protectedPaths "''authCallback''"] a
    patterns_start_with_slash [of publicPaths "''billingCancel''"] b
  show ?thesis by blast
qed

text \<open>
  C5: \<open>protectedPaths.whiteLabelTab\<close> and \<open>protectedPaths.whiteLabelDetail\<close> are equal,
  and both are the string \<open>/white-label/:id\<close>.
\<close>

theorem whiteLabelTab_eq_whiteLabelDetail:
  "property protectedPaths ''whiteLabelTab'' = property protectedPaths ''whiteLabelDetail''
   \<and> property protectedPaths ''whiteLabelTab'' = Some ''/white-label/:id''
   \<and> property protectedPaths ''whiteLabelDetail'' = Some ''/white-label/:id''"
  by (simp add: property_def protectedPaths_def)

text \<open>
  C6: no route identifier is a key of both \<open>protectedPaths\<close> and \<open>publicPaths\<close>.
\<close>

theorem identifiers_disjoint:
  "set (identifiers protectedPaths) \<inter> set (identifiers publicPaths) = {}"
  by (simp add: identifiers_def protectedPaths_def publicPaths_def)

text \<open>
  C8: within each of the two literals the identifiers are pairwise distinct: neither
  literal defines an identifier twice.
\<close>

theorem identifiers_distinct:
  "distinct (identifiers protectedPaths) \<and> distinct (identifiers publicPaths)"
  by (simp add: identifiers_def protectedPaths_def publicPaths_def)

text \<open>
  C9: no pattern string is a value of both tables, so no pattern is at once a
  protected and a public one.
\<close>

theorem patterns_disjoint:
  "set (patterns protectedPaths) \<inter> set (patterns publicPaths) = {}
   \<and> \<not> (\<exists>pat. pat \<in> set (patterns protectedPaths) \<and> pat \<in> set (patterns publicPaths))"
proof -
  have "set (patterns protectedPaths) \<inter> set (patterns publicPaths) = {}"
    by (simp add: patterns_def protectedPaths_def publicPaths_def)
  then show ?thesis by blast
qed

text \<open>
  C10: no pattern of \<open>publicPaths\<close> contains a colon, so every public pattern is purely
  literal; the placeholders (segments starting with a colon) are found in patterns of
  \<open>protectedPaths\<close>.
\<close>

theorem publicPaths_literal:
  "(\<forall>pat \<in> set (patterns publicPaths). CHR '':'' \<notin> set pat)
   \<and> (\<exists>pat \<in> set (patterns protectedPaths). CHR '':'' \<in> set pat)"
  by (simp add: patterns_def protectedPaths_def publicPaths_def)

theorem publicPaths_literal_witness:
  "''/semantic-mcp'' \<in> set (patterns publicPaths) \<and> CHR '':'' \<notin> set ''/semantic-mcp''"
proof -
  have m: "''/semantic-mcp'' \<in> set (patterns publicPaths)"
    by (simp add: patterns_def publicPaths_def)
  from publicPaths_literal have "\<forall>pat \<in> set (patterns publicPaths). CHR '':'' \<notin> set pat"
    by (rule conjunct1)
  then have "CHR '':'' \<notin> set ''/semantic-mcp''"
    using m by (rule bspec)
  with m show ?thesis by (rule conjI)
qed

section \<open>Lookup\<close>

lemma property_distinct:
  assumes "distinct (identifiers t)" and "(ident, pat) \<in> set t"
  shows "property t ident = Some pat"
proof -
  from assms(1) have "distinct (map fst (rev t))"
    by (simp add: identifiers_def rev_map [symmetric])
  moreover from assms(2) have "(ident, pat) \<in> set (rev t)"
    by simp
  ultimately have "map_of (rev t) ident = Some pat"
    by (rule map_of_is_SomeI)
  then show ?thesis
    by (simp add: property_def)
qed

lemma lookup_Inr_iff:
  assumes "distinct (identifiers t)"
  shows "lookup t ident = Inr pat \<longleftrightarrow> (ident, pat) \<in> set t"
proof
  assume "lookup t ident = Inr pat"
  then have "property t ident = Some pat"
    by (simp add: lookup_def split: option.splits)
  then show "(ident, pat) \<in> set t"
    by (rule property_Some_in_table)
next
  assume "(ident, pat) \<in> set t"
  with assms have "property t ident = Some pat"
    by (rule property_distinct)
  then show "lookup t ident = Inr pat"
    by (simp add: lookup_def)
qed

lemma lookup_Inl_iff:
  "lookup t ident = Inl e \<longleftrightarrow> ident \<notin> set (identifiers t)"
proof -
  have "lookup t ident = Inl e \<longleftrightarrow> property t ident = None"
    by (cases e) (simp add: lookup_def split: option.splits)
  then show ?thesis
    by (simp add: property_None_iff)
qed

text \<open>
  C4: for each of the two tables and every identifier, \<open>lookup\<close> returns a pattern
  exactly when the table pairs the identifier with that pattern, and it fails with
  \<open>NotFoundError\<close> exactly when the identifier is not an identifier of the table; it
  returns some pattern exactly when the identifier is present.
\<close>

theorem lookup_returns_iff_present:
  assumes "t = protectedPaths \<or> t = publicPaths"
  shows "(lookup t ident = Inr pat \<longleftrightarrow> (ident, pat) \<in> set t)
     \<and> (lookup t ident = Inl NotFoundError \<longleftrightarrow> ident \<notin> set (identifiers t))
     \<and> ((\<exists>p. lookup t ident = Inr p) \<longleftrightarrow> ident \<in> set (identifiers t))"
proof -
  have "distinct (identifiers protectedPaths)"
    by (simp add: identifiers_def protectedPaths_def)
  moreover have "distinct (identifiers publicPaths)"
    by (simp add: identifiers_def publicPaths_def)
  ultimately have d: "distinct (identifiers t)"
    using assms by blast
  have r: "lookup t ident = Inr pat \<longleftrightarrow> (ident, pat) \<in> set t"
    using d by (rule lookup_Inr_iff)
  have l: "lookup t ident = Inl NotFoundError \<longleftrightarrow> ident \<notin> set (identifiers t)"
    by (rule lookup_Inl_iff)
  have "(\<exists>p. lookup t ident = Inr p) \<longleftrightarrow> lookup t ident \<noteq> Inl NotFoundError"
    by (cases "lookup t ident") (auto intro: error.exhaust)
  with l have s: "(\<exists>p. lookup t ident = Inr p) \<longleftrightarrow> ident \<in> set (identifiers t)"
    by simp
  from r l s show ?thesis by blast
qed

theorem lookup_returns_iff_present_witness:
  "lookup publicPaths ''callback'' = Inr ''/callback''
   \<and> lookup protectedPaths ''callback'' = Inl NotFoundError
   \<and> lookup protectedPaths ''apiKeys'' = Inr ''/api-keys''
   \<and> lookup publicPaths ''apiKeys'' = Inl NotFoundError"
proof -
  have a: "(''callback'', ''/callback'') \<in> set publicPaths"
    by (simp add: publicPaths_def)
  have b: "''callback'' \<notin> set (identifiers protectedPaths)"
    by (simp add: identifiers_def protectedPaths_def)
  have c: "(''apiKeys'', ''/api-keys'') \<in> set protectedPaths"
    by (simp add: protectedPaths_def)
  have d: "''apiKeys'' \<notin> set (identifiers publicPaths)"
    by (simp add: identifiers_def publicPaths_def)
  from a b c d
    lookup_returns_iff_present [of publicPaths "''callback''" "''/callback''"]
    lookup_returns_iff_present [of protectedPaths "''callback''" "''/callback''"]
    lookup_returns_iff_present [of protectedPaths "''apiKeys''" "''/api-keys''"]
    lookup_returns_iff_present [of publicPaths "''apiKeys''" "''/api-keys''"]
  show ?thesis by blast
qed

section \<open>Serialization round trip\<close>

text \<open>The enumeration of own properties agrees with reading a property.\<close>

lemma property_Cons:
  "property (m # t) ident =
     (case property t ident of
        Some pat \<Rightarrow> Some pat
      | None \<Rightarrow> if fst m = ident then Some (snd m) else None)"
  by (cases m) (simp add: property_def map_add_def split: option.splits)

lemma property_filter:
  "ident \<noteq> k \<Longrightarrow> property (filter (\<lambda>m. fst m \<noteq> k) t) ident = property t ident"
  by (induction t) (auto simp: property_Cons split: option.splits)

lemma property_filter_self:
  "property (filter (\<lambda>m. fst m \<noteq> k) t) k = None"
  by (induction t) (auto simp: property_Cons property_def split: option.splits)

lemma property_entries: "property (entries t) ident = property t ident"
proof (induction t rule: entries.induct)
  case 1
  show ?case by simp
next
  case (2 k v t)
  show ?case
  proof (cases "ident = k")
    case True
    with "2.IH" show ?thesis
      by (simp add: property_Cons property_filter_self split: option.splits)
  next
    case False
    with "2.IH" show ?thesis
      by (simp add: property_Cons property_filter)
  qed
qed

text \<open>What the writer quotes, the reader reads back, character by character.\<close>

lemma hex_value_hex_digit: "n < 16 \<Longrightarrow> hex_value (hex_digit n) = Some n"
  by (auto simp: hex_value_def hex_digit_def Let_def)

lemma hex_value_zero: "hex_value CHR ''0'' = Some 0"
  by (simp add: hex_value_def)

lemma code_unit_control:
  assumes "n < 32"
  shows "code_unit CHR ''0'' CHR ''0'' (hex_digit (n div 16)) (hex_digit (n mod 16)) = Some (char_of n)"
proof -
  from assms have "n div 16 < 16" by simp
  then have a: "hex_value (hex_digit (n div 16)) = Some (n div 16)"
    by (rule hex_value_hex_digit)
  have "n mod 16 < 16" by simp
  then have b: "hex_value (hex_digit (n mod 16)) = Some (n mod 16)"
    by (rule hex_value_hex_digit)
  from assms show ?thesis
    by (simp add: code_unit_def hex_value_zero a b)
qed

lemma read_chars_quote_char:
  "read_chars (quote_char c @ rest) =
     (case read_chars rest of None \<Rightarrow> None | Some (s, r) \<Rightarrow> Some (c # s, r))"
proof -
  consider (named) "c \<in> {CHR 0x08, CHR 0x09, CHR 0x0A, CHR 0x0C, CHR 0x0D, dquote, backslash}"
    | (control) "c \<notin> {CHR 0x08, CHR 0x09, CHR 0x0A, CHR 0x0C, CHR 0x0D, dquote, backslash}"
        "(of_char c :: nat) < 32"
    | (plain) "c \<notin> {CHR 0x08, CHR 0x09, CHR 0x0A, CHR 0x0C, CHR 0x0D, dquote, backslash}"
        "\<not> (of_char c :: nat) < 32"
    by blast
  then show ?thesis
  proof cases
    case named
    then show ?thesis
      by (auto simp: quote_char_def unescape_def dquote_def backslash_def)
  next
    case control
    from control(2) have "code_unit CHR ''0'' CHR ''0'' (hex_digit (of_char c div 16))
        (hex_digit (of_char c mod 16)) = Some (char_of (of_char c :: nat))"
      by (rule code_unit_control)
    then have cu: "code_unit CHR ''0'' CHR ''0'' (hex_digit (of_char c div 16))
        (hex_digit (of_char c mod 16)) = Some c"
      by simp
    from control have q: "quote_char c = [backslash, CHR ''u'', CHR ''0'', CHR ''0'',
         hex_digit (of_char c div 16), hex_digit (of_char c mod 16)]"
      by (simp add: quote_char_def)
    show ?thesis
      unfolding q by (simp add: cu) (simp add: dquote_def backslash_def)
  next
    case plain
    then have "quote_char c = [c]"
      by (simp add: quote_char_def)
    with plain show ?thesis
      by simp
  qed
qed

lemma read_chars_quoted:
  "read_chars (concat (map quote_char s) @ dquote # rest) = Some (s, rest)"
  by (induction s) (simp_all add: read_chars_quote_char)

lemma read_string_QuoteJSONString:
  "read_string (QuoteJSONString s @ rest) = Some (s, rest)"
  by (simp add: read_string_def QuoteJSONString_def read_chars_quoted)

lemma skip_ws_token: "\<not> is_ws c \<Longrightarrow> skip_ws (c # s) = c # s"
  by (simp add: skip_ws_def)

lemma skip_ws_QuoteJSONString: "skip_ws (QuoteJSONString s @ rest) = QuoteJSONString s @ rest"
  by (simp add: QuoteJSONString_def skip_ws_token is_ws_def dquote_def)

lemma read_member_text: "read_member (member_text m @ rest) = Some (m, rest)"
  by (simp add: read_member_def member_text_def skip_ws_QuoteJSONString
      read_string_QuoteJSONString skip_ws_token is_ws_def)

lemma read_members_joined:
  "read_members (join (map member_text (m # ms)) @ CHR ''}'' # rest) = Some (m # ms, rest)"
proof (induction ms arbitrary: m)
  case Nil
  show ?case
    by (subst read_members.simps) (simp add: read_member_text skip_ws_token is_ws_def)
next
  case (Cons m' ms)
  have ih: "read_members (join (member_text m' # map member_text ms) @ CHR ''}'' # rest)
      = Some (m' # ms, rest)"
    using Cons.IH [of m'] by simp
  show ?case
    by (subst read_members.simps) (simp add: read_member_text skip_ws_token is_ws_def ih)
qed

lemma entries_identifiers_subset:
  "set (identifiers (entries t)) \<subseteq> set (identifiers t)"
  by (induction t rule: entries.induct) (auto simp: identifiers_def)

lemma entries_distinct: "distinct (identifiers (entries t))"
proof (induction t rule: entries.induct)
  case 1
  show ?case by (simp add: identifiers_def)
next
  case (2 k v t)
  have "set (identifiers (entries (filter (\<lambda>m. fst m \<noteq> k) t)))
      \<subseteq> set (identifiers (filter (\<lambda>m. fst m \<noteq> k) t))"
    by (rule entries_identifiers_subset)
  then have "k \<notin> set (identifiers (entries (filter (\<lambda>m. fst m \<noteq> k) t)))"
    by (auto simp: identifiers_def)
  with "2.IH" show ?case
    by (simp add: identifiers_def)
qed

lemma entries_of_distinct: "distinct (identifiers t) \<Longrightarrow> entries t = t"
proof (induction t rule: entries.induct)
  case 1
  show ?case by simp
next
  case (2 k v t)
  from "2.prems" have k: "k \<notin> fst ` set t" and d: "distinct (identifiers t)"
    by (simp_all add: identifiers_def)
  from k have f: "filter (\<lambda>m. fst m \<noteq> k) t = t"
    by (auto simp: filter_id_conv)
  from k have "property t k = None"
    by (simp add: property_def map_of_eq_None_iff)
  with f d "2.IH" show ?case
    by simp
qed

lemma entries_idem: "entries (entries t) = entries t"
  using entries_distinct by (rule entries_of_distinct)

lemma JSON_parse_members:
  "JSON_parse (CHR ''{'' # join (map member_text ms) @ ''}'') = Some (entries ms)"
proof (cases ms)
  case Nil
  then show ?thesis
    by (simp add: JSON_parse_def skip_ws_token is_ws_def skip_ws_def)
next
  case (Cons m ms')
  have start: "\<exists>cs. join (map member_text (m # ms')) @ ''}'' = dquote # cs"
    by (cases ms') (simp_all add: member_text_def QuoteJSONString_def)
  then obtain cs where cs: "join (map member_text (m # ms')) @ ''}'' = dquote # cs"
    by blast
  have "read_members (dquote # cs) = Some (m # ms', [])"
    using read_members_joined [of m ms' "[]"] cs by simp
  then show ?thesis
    unfolding Cons JSON_parse_def cs
    by (simp add: skip_ws_token is_ws_def dquote_def) (simp add: skip_ws_def)
qed

lemma JSON_roundtrip: "JSON_parse (JSON_stringify t) = Some (entries t)"
  by (simp add: JSON_stringify_def JSON_parse_members entries_idem)

lemma JSON_roundtrip_distinct:
  "distinct (identifiers t) \<Longrightarrow> JSON_parse (JSON_stringify t) = Some t"
  by (simp add: JSON_roundtrip entries_of_distinct)

text \<open>
  C7: serializing each table of the registry to JSON text and deserializing the text
  gives back the table: the same identifier-to-pattern pairs in the same order, none
  changed, added or lost.
\<close>

theorem registry_roundtrip:
  "JSON_parse (JSON_stringify protectedPaths) = Some protectedPaths
   \<and> JSON_parse (JSON_stringify publicPaths) = Some publicPaths"
proof -
  have "distinct (identifiers protectedPaths)"
    by (simp add: identifiers_def protectedPaths_def)
  then have a: "JSON_parse (JSON_stringify protectedPaths) = Some protectedPaths"
    by (rule JSON_roundtrip_distinct)
  have "distinct (identifiers publicPaths)"
    by (simp add: identifiers_def publicPaths_def)
  then have b: "JSON_parse (JSON_stringify publicPaths) = Some publicPaths"
    by (rule JSON_roundtrip_distinct)
  from a b show ?thesis by (rule conjI)
qed

end
